theory Spec2Isabelle
  imports Main
begin

section \<open>Data model of src/index.ts\<close>

text \<open>
  A value of the result type \<open>U\<close> as the cache sees it: \<open>undefined\<close> (which is also
  what an absent optional property or argument reads as), \<open>null\<close>, or a proper value.
  The distinction matters in one place: \<open>set\<close> tests \<open>value == null\<close>, which holds of
  both \<open>undefined\<close> and \<open>null\<close>.
\<close>

datatype 'u jsval = Undefined | Null | Val 'u

fun isNullish :: "'u jsval \<Rightarrow> bool" where
  "isNullish Undefined = True"
| "isNullish Null = True"
| "isNullish (Val v) = False"

text \<open>
  Promises. \<open>Produced n\<close> is the promise returned by invocation number \<open>n\<close> of the
  producer \<open>fn\<close> (counted from 0); \<open>Resolved v\<close> is \<open>Promise.resolve(v)\<close> and
  \<open>Rejected\<close> is \<open>Promise.reject()\<close>.
\<close>

datatype 'u promise = Produced nat | Resolved "'u jsval" | Rejected

text \<open>
  \<open>interface ICacheData\<close>. The field \<open>ref\<close> is not a property of the object: it is
  the object's identity, the thing that \<open>!==\<close> compares. Every object literal the code
  evaluates allocates a new identity; entries are never mutated in place.
  Times are integers of milliseconds.
\<close>

record 'u ICacheData =
  ref :: nat
  key :: string
  promise :: "'u promise"
  settled :: bool
  "value" :: "'u jsval"
  expireAt :: int

text \<open>
  \<open>type ICachePrimitiveKey = string | number | undefined\<close>, and what a resolver
  returns: one primitive or an array. The declared type of the array is a pair, but
  nothing at run time checks its length, so the model keeps a list.
\<close>

datatype 'n ICachePrimitiveKey = KString string | KNumber 'n | KUndefined

datatype 'n resolved = Single "'n ICachePrimitiveKey" | Array "'n ICachePrimitiveKey list"

text \<open>\<open>interface ICacheOptions\<close>; \<open>'a\<close> is the argument tuple \<open>T\<close>.\<close>

record ('a, 'n) ICacheOptions =
  mustRevalidate :: bool
  resolver :: "'a \<Rightarrow> 'n resolved"
  ttl :: int

text \<open>\<open>Partial<ICacheOptions>\<close>: every option may be absent.\<close>

record ('a, 'n) PartialOptions =
  opt_mustRevalidate :: "bool option"
  opt_resolver :: "('a \<Rightarrow> 'n resolved) option"
  opt_ttl :: "int option"

definition defaultOptions :: "('a, 'n) ICacheOptions" where
  "defaultOptions = \<lparr>mustRevalidate = False, resolver = (\<lambda>args. Single (KString '''')), ttl = - 1\<rparr>"

text \<open>\<open>{ ...defaultOptions, ...options }\<close>\<close>

definition mergeOptions :: "('a, 'n) PartialOptions \<Rightarrow> ('a, 'n) ICacheOptions" where
  "mergeOptions options =
     (let d = (defaultOptions :: ('a, 'n) ICacheOptions)
      in \<lparr>mustRevalidate = (case opt_mustRevalidate options of None \<Rightarrow> mustRevalidate d | Some b \<Rightarrow> b),
          resolver = (case opt_resolver options of None \<Rightarrow> resolver d | Some r \<Rightarrow> r),
          ttl = (case opt_ttl options of None \<Rightarrow> ttl d | Some t \<Rightarrow> t)\<rparr>)"

text \<open>
  The state one cached function works on:
  \<^item> \<open>cache\<close>: the storage (\<open>cache.get(g)\<close> is \<open>cache s g\<close>, \<open>cache.set(g, d)\<close>
    updates the slot, \<open>cache.set(g)\<close> and \<open>cache.clear()\<close> empty it), holding
    references to entries as the storages of the README do;
  \<^item> \<open>now\<close>: what \<open>Date.now()\<close> returns, the milliseconds elapsed since the epoch;
  \<^item> \<open>invoked\<close>: the argument tuples the producer \<open>fn\<close> was invoked with, in order;
  \<^item> \<open>next_ref\<close>: the next unused object identity;
  \<^item> \<open>handlers\<close>: the callbacks registered by \<open>promise.then(...)\<close> on the promise
    of invocation \<open>n\<close> and not run yet: the closure \<open>resolve\<close> with the \<open>cacheGroup\<close>
    and the \<open>cachedData\<close> it captured.
\<close>

record ('a, 'u) state =
  cache :: "string \<rightharpoonup> 'u ICacheData"
  now :: nat
  invoked :: "'a list"
  next_ref :: nat
  handlers :: "nat \<rightharpoonup> (string \<times> 'u ICacheData)"

definition init :: "nat \<Rightarrow> ('a, 'u) state" where
  "init t = \<lparr>cache = Map.empty, now = t, invoked = [], next_ref = 0, handlers = Map.empty\<rparr>"

type_synonym ICacheKeyTuple = "string \<times> string"

section \<open>Key resolution\<close>

text \<open>
  The template literal \<open>`${key ?? ''}`\<close>. How JavaScript prints a number is a
  primitive of the language, taken as the parameter \<open>numToString\<close>.
\<close>

fun stringify :: "('n \<Rightarrow> string) \<Rightarrow> 'n ICachePrimitiveKey \<Rightarrow> string" where
  "stringify numToString (KString s) = s"
| "stringify numToString (KNumber n) = numToString n"
| "stringify numToString KUndefined = ''''"

text \<open>
  \<open>resolveKey\<close>: \<open>keys = Array.isArray(res) ? res : [res, res]\<close>, then
  \<open>keys.map(...)\<close>, which keeps the length of the array.
\<close>

definition resolveKey :: "('n \<Rightarrow> string) \<Rightarrow> ('a, 'n) ICacheOptions \<Rightarrow> 'a \<Rightarrow> string list" where
  "resolveKey numToString opts args =
     (let res = resolver opts args;
          keys = (case res of Array ks \<Rightarrow> ks | Single k \<Rightarrow> [k, k])
      in map (stringify numToString) keys)"

text \<open>
  The destructuring pattern \<open>[cacheGroup, cacheKey]\<close> every operation opens with:
  elements 0 and 1 of the array, \<open>undefined\<close> (here \<open>None\<close>) where the array is
  too short.
\<close>

fun destructure :: "string list \<Rightarrow> string option \<times> string option" where
  "destructure [] = (None, None)"
| "destructure [g] = (Some g, None)"
| "destructure (g # k # rest) = (Some g, Some k)"

text \<open>
  \<open>withArgs\<close>: resolve the key of the arguments and hand the array and the arguments
  to the operation, whatever the array holds. The operation opens the array with the
  pattern \<open>[cacheGroup, cacheKey]\<close>, which is \<open>destructure\<close>.
\<close>

definition withArgs ::
  "('n \<Rightarrow> string) \<Rightarrow> ('a, 'n) ICacheOptions \<Rightarrow> (string list \<Rightarrow> 'a \<Rightarrow> 'v) \<Rightarrow> 'a \<Rightarrow> 'v" where
  "withArgs numToString opts keyFn args =
     (let keys = resolveKey numToString opts args in keyFn keys args)"

section \<open>The operations on a key tuple\<close>

text \<open>\<open>cachedData?.key === cacheKey && cachedData.settled\<close>\<close>

fun isSettled :: "('a, 'u) state \<Rightarrow> ICacheKeyTuple \<Rightarrow> bool" where
  "isSettled s (cacheGroup, cacheKey) =
     (case cache s cacheGroup of
        None \<Rightarrow> False
      | Some cachedData \<Rightarrow> key cachedData = cacheKey \<and> settled cachedData)"

fun isFresh :: "('a, 'u) state \<Rightarrow> ICacheKeyTuple \<Rightarrow> bool" where
  "isFresh s (cacheGroup, cacheKey) =
     (case cache s cacheGroup of
        None \<Rightarrow> False
      | Some cachedData \<Rightarrow>
          key cachedData = cacheKey \<and> settled cachedData \<and>
          (expireAt cachedData < 0 \<or> expireAt cachedData > int (now s)))"

text \<open>\<open>get\<close> returns \<open>undefined\<close> when the condition fails.\<close>

fun get :: "('a, 'n) ICacheOptions \<Rightarrow> ('a, 'u) state \<Rightarrow> ICacheKeyTuple \<Rightarrow> 'u jsval" where
  "get opts s (cacheGroup, cacheKey) =
     (case cache s cacheGroup of
        None \<Rightarrow> Undefined
      | Some cachedData \<Rightarrow>
          if \<not> mustRevalidate opts \<or> isFresh s (cacheGroup, cacheKey)
          then value cachedData else Undefined)"

text \<open>
  \<open>set\<close>. The parameter \<open>valueTtl\<close> defaults to the option \<open>ttl\<close>. In the object
  literal \<open>key: cacheKey\<close> stands before the spread \<open>...cache.get(cacheGroup)\<close>, so
  the key of an entry already stored for the group replaces it; \<open>promise\<close>,
  \<open>value\<close>, \<open>expireAt\<close> and \<open>settled\<close> stand after the spread.
\<close>

fun set_cached ::
  "('a, 'n) ICacheOptions \<Rightarrow> ICacheKeyTuple \<Rightarrow> 'u jsval \<Rightarrow> int option \<Rightarrow> ('a, 'u) state \<Rightarrow> ('a, 'u) state" where
  "set_cached opts (cacheGroup, cacheKey) v valueTtlArg s =
     (let valueTtl = (case valueTtlArg of None \<Rightarrow> ttl opts | Some t \<Rightarrow> t);
          expireAt' = (if valueTtl < 0 then valueTtl else int (now s) + valueTtl);
          data = \<lparr>ref = next_ref s,
                  key = (case cache s cacheGroup of None \<Rightarrow> cacheKey | Some old \<Rightarrow> key old),
                  promise = (if isNullish v then Rejected else Resolved v),
                  settled = True,
                  value = v,
                  expireAt = expireAt'\<rparr>
      in s\<lparr>cache := (cache s)(cacheGroup \<mapsto> data), next_ref := Suc (next_ref s)\<rparr>)"

text \<open>\<open>delete_\<close>: \<open>cache.set(cacheGroup)\<close>\<close>

fun delete_cached :: "ICacheKeyTuple \<Rightarrow> ('a, 'u) state \<Rightarrow> ('a, 'u) state" where
  "delete_cached (cacheGroup, cacheKey) s = s\<lparr>cache := (cache s)(cacheGroup := None)\<rparr>"

definition clear :: "('a, 'u) state \<Rightarrow> ('a, 'u) state" where
  "clear s = s\<lparr>cache := Map.empty\<rparr>"

text \<open>
  The closure \<open>resolve\<close> of \<open>reload\<close>, with what it captured (\<open>cacheGroup\<close>,
  \<open>cachedData\<close>) as parameters. The guard compares identities.
\<close>

definition resolve ::
  "('a, 'n) ICacheOptions \<Rightarrow> string \<Rightarrow> 'u ICacheData \<Rightarrow> bool \<Rightarrow> 'u jsval \<Rightarrow> ('a, 'u) state \<Rightarrow> ('a, 'u) state" where
  "resolve opts cacheGroup cachedData error v s =
     (if (case cache s cacheGroup of None \<Rightarrow> True | Some cur \<Rightarrow> ref cur \<noteq> ref cachedData)
      then s
      else
        (let expireAt' = (if error then 0
                          else if ttl opts < 0 then ttl opts else int (now s) + ttl opts)
         in s\<lparr>cache := (cache s)(cacheGroup \<mapsto>
                  cachedData\<lparr>ref := next_ref s, value := v, expireAt := expireAt', settled := True\<rparr>),
               next_ref := Suc (next_ref s)\<rparr>))"

text \<open>
  \<open>reload\<close>: invoke the producer, install the pending entry, register \<open>resolve\<close> on
  the promise, return the promise. Of the fields of \<open>oldCache\<close> the spread leaves
  \<open>value\<close>: the other four are overwritten.
\<close>

fun reload ::
  "('a, 'n) ICacheOptions \<Rightarrow> ICacheKeyTuple \<Rightarrow> 'a \<Rightarrow> ('a, 'u) state \<Rightarrow> 'u promise \<times> ('a, 'u) state" where
  "reload opts (cacheGroup, cacheKey) args s =
     (let oldCache = cache s cacheGroup;
          n = length (invoked s);
          promise' = Produced n;
          cachedData = \<lparr>ref = next_ref s,
                        key = cacheKey,
                        promise = promise',
                        settled = False,
                        value = (case oldCache of None \<Rightarrow> Undefined | Some old \<Rightarrow> value old),
                        expireAt = - 1\<rparr>
      in (promise',
          s\<lparr>cache := (cache s)(cacheGroup \<mapsto> cachedData),
            invoked := invoked s @ [args],
            next_ref := Suc (next_ref s),
            handlers := (handlers s)(n \<mapsto> (cacheGroup, cachedData))\<rparr>))"

fun call ::
  "('a, 'n) ICacheOptions \<Rightarrow> ICacheKeyTuple \<Rightarrow> 'a \<Rightarrow> ('a, 'u) state \<Rightarrow> 'u promise \<times> ('a, 'u) state" where
  "call opts (cacheGroup, cacheKey) args s =
     (case cache s cacheGroup of
        Some cachedData \<Rightarrow>
          if isFresh s (cacheGroup, cacheKey) then (promise cachedData, s)
          else reload opts (cacheGroup, cacheKey) args s
      | None \<Rightarrow> reload opts (cacheGroup, cacheKey) args s)"

text \<open>
  \<open>getContext\<close>: the operations with the key and the arguments fixed. Its \<open>set\<close>
  has a default of its own for the time to live, \<open>ttl = -1\<close>.
\<close>

record ('a, 'u) ICacheContext =
  ctx_call :: "('a, 'u) state \<Rightarrow> 'u promise \<times> ('a, 'u) state"
  ctx_get :: "('a, 'u) state \<Rightarrow> 'u jsval"
  ctx_set :: "'u jsval \<Rightarrow> int option \<Rightarrow> ('a, 'u) state \<Rightarrow> ('a, 'u) state"
  ctx_delete :: "('a, 'u) state \<Rightarrow> ('a, 'u) state"
  ctx_reload :: "('a, 'u) state \<Rightarrow> 'u promise \<times> ('a, 'u) state"
  ctx_isSettled :: "('a, 'u) state \<Rightarrow> bool"
  ctx_isFresh :: "('a, 'u) state \<Rightarrow> bool"

definition getContext :: "('a, 'n) ICacheOptions \<Rightarrow> ICacheKeyTuple \<Rightarrow> 'a \<Rightarrow> ('a, 'u) ICacheContext" where
  "getContext opts keys args =
     \<lparr>ctx_call = call opts keys args,
      ctx_get = (\<lambda>s. get opts s keys),
      ctx_set = (\<lambda>v ttlArg. set_cached opts keys v (Some (case ttlArg of None \<Rightarrow> - 1 | Some t \<Rightarrow> t))),
      ctx_delete = delete_cached keys,
      ctx_reload = reload opts keys args,
      ctx_isSettled = (\<lambda>s. isSettled s keys),
      ctx_isFresh = (\<lambda>s. isFresh s keys)\<rparr>"

section \<open>Settlement and traces\<close>

text \<open>
  The producer's promise settles once, fulfilled with a value or rejected; the
  callbacks given to \<open>promise.then\<close> then run: \<open>resolve(false, value)\<close> or
  \<open>resolve(true)\<close>, whose missing second argument reads as \<open>undefined\<close>.
\<close>

datatype 'u outcome = Fulfilled "'u jsval" | Failed

definition settle ::
  "('a, 'n) ICacheOptions \<Rightarrow> nat \<Rightarrow> 'u outcome \<Rightarrow> ('a, 'u) state \<Rightarrow> ('a, 'u) state" where
  "settle opts n out s =
     (case handlers s n of
        None \<Rightarrow> s
      | Some (cacheGroup, cachedData) \<Rightarrow>
          (let s' = s\<lparr>handlers := (handlers s)(n := None)\<rparr>
           in case out of
                Fulfilled v \<Rightarrow> resolve opts cacheGroup cachedData False v s'
              | Failed \<Rightarrow> resolve opts cacheGroup cachedData True Undefined s'))"

text \<open>Time passing between two operations.\<close>

definition tick :: "nat \<Rightarrow> ('a, 'u) state \<Rightarrow> ('a, 'u) state" where
  "tick d s = s\<lparr>now := now s + d\<rparr>"

text \<open>
  What can happen to one cached function: the operations of the facade, a promise
  settling, time passing. Execution is single-threaded, so a history is a list.
\<close>

datatype ('a, 'u) event =
    Call ICacheKeyTuple 'a
  | Reload ICacheKeyTuple 'a
  | SetValue ICacheKeyTuple "'u jsval" "int option"
  | Delete ICacheKeyTuple
  | Clear
  | Settle nat "'u outcome"
  | Tick nat

fun step :: "('a, 'n) ICacheOptions \<Rightarrow> ('a, 'u) event \<Rightarrow> ('a, 'u) state \<Rightarrow> ('a, 'u) state" where
  "step opts (Call keys args) s = snd (call opts keys args s)"
| "step opts (Reload keys args) s = snd (reload opts keys args s)"
| "step opts (SetValue keys v t) s = set_cached opts keys v t s"
| "step opts (Delete keys) s = delete_cached keys s"
| "step opts Clear s = clear s"
| "step opts (Settle n out) s = settle opts n out s"
| "step opts (Tick d) s = tick d s"

fun run :: "('a, 'n) ICacheOptions \<Rightarrow> ('a, 'u) event list \<Rightarrow> ('a, 'u) state \<Rightarrow> ('a, 'u) state" where
  "run opts [] s = s"
| "run opts (e # es) s = run opts es (step opts e s)"

section \<open>Predicates of the proofs\<close>

text \<open>
  The events that replace the entry of group \<open>g\<close> whatever the state: a reload or a
  set for the group, a delete of the group, a clear.
\<close>

fun supersedes :: "string \<Rightarrow> ('a, 'u) event \<Rightarrow> bool" where
  "supersedes g (Reload keys args) = (fst keys = g)"
| "supersedes g (SetValue keys v t) = (fst keys = g)"
| "supersedes g (Delete keys) = (fst keys = g)"
| "supersedes g Clear = True"
| "supersedes g (Call keys args) = False"
| "supersedes g (Settle n out) = False"
| "supersedes g (Tick d) = False"

text \<open>
  What one event can do to the slot of a group: leave it, empty it, or store an entry
  with the identity that was unused before the event. Identities are never reused.
\<close>

definition slot_effect :: "('a, 'u) state \<Rightarrow> ('a, 'u) state \<Rightarrow> string \<Rightarrow> bool" where
  "slot_effect s s' g =
     (next_ref s \<le> next_ref s' \<and>
      (cache s' g = cache s g \<or> cache s' g = None \<or>
       (\<exists>d. cache s' g = Some d \<and> ref d = next_ref s \<and> next_ref s < next_ref s')))"

text \<open>
  \<open>gone g E s\<close>: the entry \<open>E\<close> was allocated and the slot of \<open>g\<close> holds another
  object or none. \<open>known g E s\<close>: \<open>E\<close> was allocated and an entry of the slot with
  the identity of \<open>E\<close> is \<open>E\<close>.
\<close>

definition gone :: "string \<Rightarrow> 'u ICacheData \<Rightarrow> ('a, 'u) state \<Rightarrow> bool" where
  "gone g E s = (ref E < next_ref s \<and> (case cache s g of None \<Rightarrow> True | Some cur \<Rightarrow> ref cur \<noteq> ref E))"

definition known :: "string \<Rightarrow> 'u ICacheData \<Rightarrow> ('a, 'u) state \<Rightarrow> bool" where
  "known g E s = (ref E < next_ref s \<and> (case cache s g of None \<Rightarrow> True | Some cur \<Rightarrow> ref cur = ref E \<longrightarrow> cur = E))"

text \<open>
  The callback of invocation \<open>n\<close> is the closure over \<open>g\<close> and \<open>E\<close>, or has run.
\<close>

definition handler_inv :: "nat \<Rightarrow> string \<Rightarrow> 'u ICacheData \<Rightarrow> ('a, 'u) state \<Rightarrow> bool" where
  "handler_inv n g E s = (n < length (invoked s) \<and> (handlers s n = None \<or> handlers s n = Some (g, E)))"

text \<open>
  Every callback not run yet belongs to a past invocation, and the entry it captured
  carries the promise of that invocation.
\<close>

definition handlers_ok :: "('a, 'u) state \<Rightarrow> bool" where
  "handlers_ok s = (\<forall>n g E. handlers s n = Some (g, E) \<longrightarrow> n < length (invoked s) \<and> promise E = Produced n)"

section \<open>Configurations and states of the examples\<close>

text \<open>
  \<open>cacheAsync(fn, { resolver: (a) => ['g', a], ttl: 1000 })\<close> over numbers; the same
  with \<open>mustRevalidate: true\<close>; with \<open>ttl: -2\<close>; with no \<open>ttl\<close> and no
  \<open>mustRevalidate\<close> given; with a resolver that returns a one-element array; and
  \<open>cacheAsync(fn)\<close>, with no options at all.
\<close>

definition opts1 :: "(nat, nat) ICacheOptions" where
  "opts1 = \<lparr>mustRevalidate = False, resolver = (\<lambda>a. Array [KString ''g'', KNumber a]), ttl = 1000\<rparr>"

definition opts_mr :: "(nat, nat) ICacheOptions" where
  "opts_mr = \<lparr>mustRevalidate = True, resolver = (\<lambda>a. Array [KString ''g'', KNumber a]), ttl = 1000\<rparr>"

definition opts_neg :: "(nat, nat) ICacheOptions" where
  "opts_neg = \<lparr>mustRevalidate = False, resolver = (\<lambda>a. Array [KString ''g'', KNumber a]), ttl = - 2\<rparr>"

definition opts_default :: "(nat, nat) ICacheOptions" where
  "opts_default = mergeOptions \<lparr>opt_mustRevalidate = None, opt_resolver = Some (\<lambda>a. Array [KString ''g'', KNumber a]), opt_ttl = None\<rparr>"

definition opts_short :: "(nat, nat) ICacheOptions" where
  "opts_short = \<lparr>mustRevalidate = False, resolver = (\<lambda>a. Array [KString ''g'']), ttl = - 1\<rparr>"

definition opts_plain :: "(nat, nat) ICacheOptions" where
  "opts_plain = mergeOptions \<lparr>opt_mustRevalidate = None, opt_resolver = None, opt_ttl = None\<rparr>"

text \<open>
  The states: after a first call for key \<open>1\<close> at time 0, with the entry
  \<open>pending1\<close> it installs; after that promise is fulfilled with 7; the same two steps
  from time 5 under \<open>ttl: -2\<close>; after the context of key \<open>2\<close> then sets 9; and
  after a first call of the function cached with no options, at time 0.
\<close>

definition pending1 :: "nat ICacheData" where
  "pending1 = \<lparr>ref = 0, key = ''1'', promise = Produced 0, settled = False, value = Undefined, expireAt = - 1\<rparr>"

definition s_pending :: "(nat, nat) state" where
  "s_pending = snd (call opts1 (''g'', ''1'') 1 (init 0))"

definition s_settled :: "(nat, nat) state" where
  "s_settled = settle opts1 0 (Fulfilled (Val 7)) s_pending"

definition s_forever :: "(nat, nat) state" where
  "s_forever = run opts_neg [Call (''g'', ''1'') 1, Settle 0 (Fulfilled (Val 7))] (init 5)"

definition s_overridden :: "(nat, nat) state" where
  "s_overridden = ctx_set (getContext opts1 (''g'', ''2'') 2) (Val 9) None s_settled"

definition s_first :: "(nat, nat) state" where
  "s_first = snd (call opts_plain ('''', '''') 1 (init 0))"

section \<open>Equations of the operations\<close>

lemma reload_eq:
  "reload opts (g, k) args s =
     (Produced (length (invoked s)),
      s\<lparr>cache := (cache s)(g \<mapsto> \<lparr>ref = next_ref s, key = k, promise = Produced (length (invoked s)), settled = False,
               value = (case cache s g of None \<Rightarrow> Undefined | Some old \<Rightarrow> value old),
               expireAt = - 1\<rparr>),
        invoked := invoked s @ [args],
        next_ref := Suc (next_ref s),
        handlers := (handlers s)(length (invoked s) \<mapsto> (g, \<lparr>ref = next_ref s, key = k, promise = Produced (length (invoked s)), settled = False,
               value = (case cache s g of None \<Rightarrow> Undefined | Some old \<Rightarrow> value old),
               expireAt = - 1\<rparr>))\<rparr>)"
  by (simp add: Let_def)

lemma call_fresh:
  "isFresh s (g, k) \<Longrightarrow> \<exists>cd. cache s g = Some cd \<and> call opts (g, k) args s = (promise cd, s)"
proof (cases "cache s g")
  case None
  assume "isFresh s (g, k)"
  with None show ?thesis by simp
next
  case (Some cd)
  assume "isFresh s (g, k)"
  with Some show ?thesis by (simp del: isFresh.simps reload.simps)
qed

lemma call_not_fresh:
  "\<not> isFresh s (g, k) \<Longrightarrow> call opts (g, k) args s = reload opts (g, k) args s"
  by (cases "cache s g") (simp_all del: isFresh.simps reload.simps)

lemma settle_eq:
  "settle opts n out s =
     (case handlers s n of
        None \<Rightarrow> s
      | Some h \<Rightarrow>
          resolve opts (fst h) (snd h) (out = Failed) (case out of Fulfilled v \<Rightarrow> v | Failed \<Rightarrow> Undefined)
            (s\<lparr>handlers := (handlers s)(n := None)\<rparr>))"
  by (simp add: settle_def Let_def split: option.splits outcome.splits prod.splits)

lemma settle_current:
  assumes "handlers s n = Some (g, E)" and "cache s g = Some cur" and "ref cur = ref E"
  shows "settle opts n out s =
           s\<lparr>handlers := (handlers s)(n := None),
             cache := (cache s)(g \<mapsto> E\<lparr>ref := next_ref s,
                                         value := (case out of Fulfilled v \<Rightarrow> v | Failed \<Rightarrow> Undefined),
                                         expireAt := (case out of Failed \<Rightarrow> 0
                                                      | Fulfilled v \<Rightarrow> if ttl opts < 0 then ttl opts else int (now s) + ttl opts),
                                         settled := True\<rparr>),
             next_ref := Suc (next_ref s)\<rparr>"
  using assms by (cases out) (simp_all add: settle_eq resolve_def Let_def)

lemma settle_current_cache:
  assumes "handlers s n = Some (g, E)" and "cache s g = Some cur" and "ref cur = ref E"
  shows "cache (settle opts n out s) g =
           Some (E\<lparr>ref := next_ref s,
                   value := (case out of Fulfilled v \<Rightarrow> v | Failed \<Rightarrow> Undefined),
                   expireAt := (case out of Failed \<Rightarrow> 0
                                | Fulfilled v \<Rightarrow> if ttl opts < 0 then ttl opts else int (now s) + ttl opts),
                   settled := True\<rparr>)"
    and "now (settle opts n out s) = now s"
    and "invoked (settle opts n out s) = invoked s"
  unfolding settle_current[OF assms] by simp_all

lemma run_append: "run opts (xs @ ys) s = run opts ys (run opts xs s)"
  by (induction xs arbitrary: s) auto

lemma run_calls_fresh: "isFresh s (g, k) \<Longrightarrow> run opts (map (Call (g, k)) as) s = s"
proof (induction as)
  case Nil
  show ?case by simp
next
  case (Cons a as)
  from call_fresh[OF Cons.prems, of opts a] have "snd (call opts (g, k) a s) = s" by auto
  then show ?case using Cons by (simp del: call.simps isFresh.simps)
qed

lemma destructure_short: "length xs < 2 \<Longrightarrow> snd (destructure xs) = None"
  by (cases xs rule: destructure.cases) simp_all

section \<open>Identities are never reused\<close>

lemma slot_effect_refl: "slot_effect s s g"
  by (simp add: slot_effect_def)

lemma reload_effect: "slot_effect s (snd (reload opts (g', k) args s)) g"
  by (simp add: slot_effect_def Let_def)

lemma set_cached_effect: "slot_effect s (set_cached opts (g', k) v t s) g"
  by (simp add: slot_effect_def Let_def)

lemma delete_effect: "slot_effect s (delete_cached (g', k) s) g"
  by (simp add: slot_effect_def)

lemma clear_effect: "slot_effect s (clear s) g"
  by (simp add: slot_effect_def clear_def)

lemma resolve_effect: "slot_effect s (resolve opts g' cd err v s) g"
  by (simp add: slot_effect_def resolve_def Let_def)

lemma call_effect: "slot_effect s (snd (call opts (g', k) args s)) g"
proof (cases "isFresh s (g', k)")
  case True
  from call_fresh[OF True, of opts args] show ?thesis by (auto simp: slot_effect_refl)
next
  case False
  from call_not_fresh[OF False, of opts args] show ?thesis
    using reload_effect[of s opts g' k args g] by simp
qed

lemma settle_effect: "slot_effect s (settle opts n out s) g"
proof (cases "handlers s n")
  case None
  then show ?thesis by (simp add: settle_eq slot_effect_refl)
next
  case (Some h)
  let ?s' = "s\<lparr>handlers := (handlers s)(n := None)\<rparr>"
  have "slot_effect ?s' (settle opts n out s) g"
    using Some resolve_effect[of ?s' opts "fst h" "snd h" _ _ g] by (simp add: settle_eq)
  then show ?thesis by (simp add: slot_effect_def)
qed

lemma step_effect: "slot_effect s (step opts ev s) g"
proof (cases ev)
  case (Call keys args)
  then show ?thesis using call_effect[of s opts "fst keys" "snd keys" args g] by (simp del: call.simps)
next
  case (Reload keys args)
  then show ?thesis using reload_effect[of s opts "fst keys" "snd keys" args g] by (simp del: reload.simps)
next
  case (SetValue keys v t)
  then show ?thesis using set_cached_effect[of s opts "fst keys" "snd keys" v t g] by (simp del: set_cached.simps)
next
  case (Delete keys)
  then show ?thesis using delete_effect[of s "fst keys" "snd keys" g] by (simp del: delete_cached.simps)
next
  case Clear
  then show ?thesis by (simp add: clear_effect)
next
  case (Settle n out)
  then show ?thesis by (simp add: settle_effect)
next
  case (Tick d)
  then show ?thesis by (simp add: tick_def slot_effect_def)
qed

lemma gone_effect: "gone g E s \<Longrightarrow> slot_effect s s' g \<Longrightarrow> gone g E s'"
  by (auto simp: gone_def slot_effect_def split: option.splits)

lemma known_effect: "known g E s \<Longrightarrow> slot_effect s s' g \<Longrightarrow> known g E s'"
  by (auto simp: known_def slot_effect_def split: option.splits)

lemma gone_run: "gone g E s \<Longrightarrow> gone g E (run opts evs s)"
  by (induction evs arbitrary: s) (auto intro: gone_effect step_effect)

lemma known_run: "known g E s \<Longrightarrow> known g E (run opts evs s)"
  by (induction evs arbitrary: s) (auto intro: known_effect step_effect)

lemma supersedes_gone:
  assumes "ref E < next_ref s" and "supersedes g ev"
  shows "gone g E (step opts ev s)"
proof (cases ev)
  case (Reload keys args)
  with assms show ?thesis by (cases keys) (simp add: gone_def Let_def)
next
  case (SetValue keys v t)
  with assms show ?thesis by (cases keys) (simp add: gone_def Let_def)
next
  case (Delete keys)
  with assms show ?thesis by (cases keys) (simp add: gone_def)
next
  case Clear
  with assms show ?thesis by (simp add: gone_def clear_def)
qed (use assms in simp_all)

lemma resolve_gone: "gone g E s \<Longrightarrow> resolve opts g E err v s = s"
  by (auto simp: gone_def resolve_def split: option.splits)

lemma settle_cache_gone:
  assumes "gone g E s" and "handlers s n = None \<or> handlers s n = Some (g, E)"
  shows "cache (settle opts n out s) = cache s"
proof (cases "handlers s n")
  case None
  then show ?thesis by (simp add: settle_eq)
next
  case (Some h)
  with assms(2) have h: "h = (g, E)" by simp
  let ?s' = "s\<lparr>handlers := (handlers s)(n := None)\<rparr>"
  have "gone g E ?s'" using assms(1) by (simp add: gone_def)
  then have "resolve opts g E err v ?s' = ?s'" for err v by (rule resolve_gone)
  then show ?thesis using Some h by (simp add: settle_eq)
qed

lemma handler_inv_reload: "handler_inv n g E s \<Longrightarrow> handler_inv n g E (snd (reload opts (g', k) args s))"
  by (auto simp: handler_inv_def Let_def)

lemma handler_inv_resolve: "handler_inv n g E s \<Longrightarrow> handler_inv n g E (resolve opts g' cd err v s)"
  by (auto simp: handler_inv_def resolve_def Let_def)

lemma handler_inv_step: "handler_inv n g E s \<Longrightarrow> handler_inv n g E (step opts ev s)"
proof (cases ev)
  case (Call keys args)
  assume a: "handler_inv n g E s"
  obtain g' k where keys: "keys = (g', k)" by (cases keys)
  show ?thesis
  proof (cases "isFresh s (g', k)")
    case True
    from call_fresh[OF True, of opts args] show ?thesis using Call keys a by auto
  next
    case False
    from call_not_fresh[OF False, of opts args] show ?thesis
      using Call keys a handler_inv_reload[of n g E s opts g' k args]
      by (simp del: reload.simps call.simps)
  qed
next
  case (Reload keys args)
  assume a: "handler_inv n g E s"
  show ?thesis using Reload a handler_inv_reload[of n g E s opts "fst keys" "snd keys" args]
    by (simp del: reload.simps)
next
  case (SetValue keys v t)
  assume a: "handler_inv n g E s"
  then show ?thesis using SetValue by (cases keys) (auto simp: handler_inv_def Let_def)
next
  case (Delete keys)
  assume a: "handler_inv n g E s"
  then show ?thesis using Delete by (cases keys) (auto simp: handler_inv_def)
next
  case Clear
  assume a: "handler_inv n g E s"
  then show ?thesis using Clear by (auto simp: handler_inv_def clear_def)
next
  case (Settle m out)
  assume a: "handler_inv n g E s"
  show ?thesis
  proof (cases "handlers s m")
    case None
    then show ?thesis using Settle a by (simp add: settle_eq)
  next
    case (Some h)
    let ?s' = "s\<lparr>handlers := (handlers s)(m := None)\<rparr>"
    have "handler_inv n g E ?s'" using a by (auto simp: handler_inv_def)
    then have "handler_inv n g E (resolve opts (fst h) (snd h) err v ?s')" for err v
      by (rule handler_inv_resolve)
    then show ?thesis using Settle Some by (simp add: settle_eq)
  qed
next
  case (Tick d)
  assume a: "handler_inv n g E s"
  then show ?thesis using Tick by (auto simp: handler_inv_def tick_def)
qed

lemma handler_inv_run: "handler_inv n g E s \<Longrightarrow> handler_inv n g E (run opts evs s)"
  by (induction evs arbitrary: s) (auto intro: handler_inv_step)

lemma reload_known:
  assumes "reload opts (g, k) args s0 = (p, s1)" and "cache s1 g = Some E"
  shows "known g E s1" and "handler_inv (length (invoked s0)) g E s1" and "handlers s1 (length (invoked s0)) = Some (g, E)"
  using assms by (auto simp: known_def handler_inv_def Let_def)

lemma known_not_current:
  "known g E s \<Longrightarrow> cache s g \<noteq> Some E \<Longrightarrow> gone g E s"
  by (auto simp: known_def gone_def split: option.splits)

lemma resolve_writes_only_current:
  "resolve opts g E err v s \<noteq> s \<Longrightarrow> \<exists>cur. cache s g = Some cur \<and> ref cur = ref E"
  by (auto simp: resolve_def split: option.splits if_splits)

section \<open>Callbacks belong to past invocations\<close>

lemma handlers_ok_init: "handlers_ok (init t)"
  by (simp add: handlers_ok_def init_def)

lemma handlers_ok_reload: "handlers_ok s \<Longrightarrow> handlers_ok (snd (reload opts (g, k) args s))"
  unfolding reload_eq by (auto simp: handlers_ok_def less_Suc_eq)

lemma handlers_ok_resolve: "handlers_ok s \<Longrightarrow> handlers_ok (resolve opts g cd err v s)"
  by (auto simp: handlers_ok_def resolve_def Let_def)

lemma handlers_ok_step: "handlers_ok s \<Longrightarrow> handlers_ok (step opts ev s)"
proof (cases ev)
  case (Call keys args)
  assume a: "handlers_ok s"
  obtain g k where keys: "keys = (g, k)" by (cases keys)
  show ?thesis
  proof (cases "isFresh s (g, k)")
    case True
    from call_fresh[OF True, of opts args] show ?thesis using Call keys a by auto
  next
    case False
    from call_not_fresh[OF False, of opts args] show ?thesis
      using Call keys handlers_ok_reload[OF a, of opts g k args]
      by (simp del: reload.simps call.simps)
  qed
next
  case (Reload keys args)
  assume a: "handlers_ok s"
  show ?thesis using Reload handlers_ok_reload[OF a, of opts "fst keys" "snd keys" args]
    by (simp del: reload.simps)
next
  case (SetValue keys v t)
  assume a: "handlers_ok s"
  then show ?thesis using SetValue by (cases keys) (auto simp: handlers_ok_def Let_def)
next
  case (Delete keys)
  assume a: "handlers_ok s"
  then show ?thesis using Delete by (cases keys) (auto simp: handlers_ok_def)
next
  case Clear
  assume a: "handlers_ok s"
  then show ?thesis using Clear by (auto simp: handlers_ok_def clear_def)
next
  case (Settle m out)
  assume a: "handlers_ok s"
  show ?thesis
  proof (cases "handlers s m")
    case None
    then show ?thesis using Settle a by (simp add: settle_eq)
  next
    case (Some h)
    let ?s' = "s\<lparr>handlers := (handlers s)(m := None)\<rparr>"
    have "handlers_ok ?s'" using a by (auto simp: handlers_ok_def)
    then have "handlers_ok (resolve opts (fst h) (snd h) err v ?s')" for err v
      by (rule handlers_ok_resolve)
    then show ?thesis using Settle Some by (simp add: settle_eq)
  qed
next
  case (Tick d)
  assume a: "handlers_ok s"
  then show ?thesis using Tick by (auto simp: handlers_ok_def tick_def)
qed

lemma handlers_ok_run: "handlers_ok s \<Longrightarrow> handlers_ok (run opts evs s)"
  by (induction evs arbitrary: s) (auto intro: handlers_ok_step)

section \<open>The states of the examples, evaluated\<close>

lemma s_pending_eq:
  "s_pending = \<lparr>cache = [''g'' \<mapsto> pending1], now = 0, invoked = [1], next_ref = 1,
                 handlers = [0 \<mapsto> (''g'', pending1)]\<rparr>"
  by (simp add: init_def Let_def s_pending_def pending1_def)

lemma s_settled_eq:
  "s_settled = \<lparr>cache = [''g'' \<mapsto> \<lparr>ref = 1, key = ''1'', promise = Produced 0, settled = True, value = Val 7, expireAt = 1000\<rparr>],
                 now = 0, invoked = [1], next_ref = 2, handlers = Map.empty\<rparr>"
proof -
  have h: "handlers s_pending 0 = Some (''g'', pending1)" by (simp add: s_pending_eq)
  have c: "cache s_pending ''g'' = Some pending1" by (simp add: s_pending_eq)
  show ?thesis
    unfolding s_settled_def settle_current[OF h c refl]
    by (simp add: s_pending_eq pending1_def opts1_def)
qed

lemma s_forever_eq:
  "s_forever = \<lparr>cache = [''g'' \<mapsto> \<lparr>ref = 1, key = ''1'', promise = Produced 0, settled = True, value = Val 7, expireAt = - 2\<rparr>],
                 now = 5, invoked = [1], next_ref = 2, handlers = Map.empty\<rparr>"
proof -
  let ?s = "snd (call opts_neg (''g'', ''1'') 1 (init 5)) :: (nat, nat) state"
  have s: "?s = \<lparr>cache = [''g'' \<mapsto> pending1], now = 5, invoked = [1], next_ref = 1,
                 handlers = [0 \<mapsto> (''g'', pending1)]\<rparr>"
    by (simp add: init_def Let_def pending1_def)
  have h: "handlers ?s 0 = Some (''g'', pending1)" unfolding s by simp
  have c: "cache ?s ''g'' = Some pending1" unfolding s by simp
  have "s_forever = settle opts_neg 0 (Fulfilled (Val 7)) ?s"
    by (simp add: s_forever_def del: call.simps)
  also have "\<dots> = \<lparr>cache = [''g'' \<mapsto> \<lparr>ref = 1, key = ''1'', promise = Produced 0, settled = True, value = Val 7, expireAt = - 2\<rparr>],
                 now = 5, invoked = [1], next_ref = 2, handlers = Map.empty\<rparr>"
    unfolding settle_current[OF h c refl] unfolding s
    by (simp add: pending1_def opts_neg_def)
  finally show ?thesis .
qed

section \<open>The claims\<close>

subsection \<open>C1: a superseded settlement writes nothing\<close>

text \<open>
  C1. Let \<open>reload\<close> install the entry \<open>E\<close> for group \<open>g\<close> with invocation \<open>n\<close> of the
  producer. The callback it registers on the promise is \<open>resolve\<close> closed over \<open>g\<close>
  and \<open>E\<close>. After any history of operations, settlements and time, if the slot of
  \<open>g\<close> no longer holds \<open>E\<close> when the promise settles (fulfilled or rejected), the
  storage is left as it is; a later reload, set, delete or clear of the group, followed
  by anything, is such a history. In any state at all, \<open>resolve\<close> changes the state
  only if the slot of \<open>g\<close> holds an object with the identity of \<open>E\<close>.
\<close>

theorem stale_settlement_writes_nothing:
  fixes opts :: "('a, 'n) ICacheOptions" and s0 s1 :: "('a, 'u) state"
  assumes "reload opts (g, k) args s0 = (p, s1)"
      and "cache s1 g = Some E"
      and "n = length (invoked s0)"
  shows "handlers s1 n = Some (g, E) \<and>
         (\<forall>evs out. cache (run opts evs s1) g \<noteq> Some E \<longrightarrow>
            cache (settle opts n out (run opts evs s1)) = cache (run opts evs s1)) \<and>
         (\<forall>evs ev evs' out. supersedes g ev \<longrightarrow>
            cache (settle opts n out (run opts (evs @ ev # evs') s1)) = cache (run opts (evs @ ev # evs') s1)) \<and>
         (\<forall>s err v. resolve opts g E err v s \<noteq> s \<longrightarrow> (\<exists>cur. cache s g = Some cur \<and> ref cur = ref E))"
proof (intro conjI allI impI)
  show "handlers s1 n = Some (g, E)"
    using reload_known(3)[OF assms(1,2)] assms(3) by simp
next
  fix evs :: "('a, 'u) event list" and out :: "'u outcome"
  assume changed: "cache (run opts evs s1) g \<noteq> Some E"
  have "known g E (run opts evs s1)"
    using reload_known(1)[OF assms(1,2)] by (rule known_run)
  then have g: "gone g E (run opts evs s1)"
    using changed by (rule known_not_current)
  have "handler_inv n g E (run opts evs s1)"
    using reload_known(2)[OF assms(1,2)] assms(3) handler_inv_run by blast
  then have "handlers (run opts evs s1) n = None \<or> handlers (run opts evs s1) n = Some (g, E)"
    by (simp add: handler_inv_def)
  with g show "cache (settle opts n out (run opts evs s1)) = cache (run opts evs s1)"
    by (rule settle_cache_gone)
next
  fix evs evs' :: "('a, 'u) event list" and ev :: "('a, 'u) event" and out :: "'u outcome"
  assume sup: "supersedes g ev"
  let ?s2 = "run opts (evs @ ev # evs') s1"
  have "known g E (run opts evs s1)"
    using reload_known(1)[OF assms(1,2)] by (rule known_run)
  then have "ref E < next_ref (run opts evs s1)" by (simp add: known_def)
  then have "gone g E (step opts ev (run opts evs s1))"
    using sup by (rule supersedes_gone)
  then have g: "gone g E ?s2"
    by (simp add: run_append gone_run)
  have "handler_inv n g E ?s2"
    using reload_known(2)[OF assms(1,2)] assms(3) handler_inv_run by blast
  then have "handlers ?s2 n = None \<or> handlers ?s2 n = Some (g, E)"
    by (simp add: handler_inv_def)
  with g show "cache (settle opts n out ?s2) = cache ?s2"
    by (rule settle_cache_gone)
next
  fix s :: "('a, 'u) state" and err v
  assume "resolve opts g E err v s \<noteq> s"
  then show "\<exists>cur. cache s g = Some cur \<and> ref cur = ref E"
    by (rule resolve_writes_only_current)
qed

text \<open>
  An instance: reload for key \<open>1\<close>, a second reload for key \<open>2\<close> of the same group,
  then the first promise is fulfilled. The slot still holds the second, pending entry.
\<close>

theorem stale_settlement_writes_nothing_witness:
  "supersedes ''g'' (Reload (''g'', ''2'') (2::nat) :: (nat, nat) event) \<and>
   cache (settle opts1 0 (Fulfilled (Val (5::nat)))
            (run opts1 [Reload (''g'', ''2'') 2] (snd (reload opts1 (''g'', ''1'') 1 (init 0))))) ''g''
     = Some \<lparr>ref = 1, key = ''2'', promise = Produced 1, settled = False, value = Undefined, expireAt = - 1\<rparr>"
proof -
  let ?s0 = "init 0 :: (nat, nat) state"
  let ?E = "\<lparr>ref = 0, key = ''1'', promise = Produced 0 :: nat promise, settled = False, value = Undefined, expireAt = - 1\<rparr>"
  let ?s1 = "snd (reload opts1 (''g'', ''1'') 1 ?s0)"
  have r: "reload opts1 (''g'', ''1'') 1 ?s0 = (Produced 0, ?s1)"
    by (simp add: init_def Let_def)
  have c: "cache ?s1 ''g'' = Some ?E"
    by (simp add: init_def Let_def)
  have n: "0 = length (invoked ?s0)"
    by (simp add: init_def)
  have sup: "supersedes ''g'' (Reload (''g'', ''2'') (2::nat) :: (nat, nat) event)"
    by simp
  have "\<forall>evs ev evs' out. supersedes ''g'' ev \<longrightarrow>
            cache (settle opts1 0 out (run opts1 (evs @ ev # evs') ?s1)) = cache (run opts1 (evs @ ev # evs') ?s1)"
    using stale_settlement_writes_nothing[OF r c n] by blast
  then have "cache (settle opts1 0 (Fulfilled (Val 5)) (run opts1 ([] @ Reload (''g'', ''2'') 2 # []) ?s1))
           = cache (run opts1 ([] @ Reload (''g'', ''2'') 2 # []) ?s1)"
    using sup by blast
  then show ?thesis
    using sup by (simp add: init_def Let_def)
qed

subsection \<open>C2: overlapping calls\<close>

text \<open>
  While the entry of the group is fresh for the key tuple of the call, every call
  returns the promise stored in the entry and leaves the state as it is, so no number
  of such calls invokes the producer.
\<close>

lemma call_while_fresh:
  fixes opts :: "('a, 'n) ICacheOptions" and s :: "('a, 'u) state"
  assumes "cache s g = Some cd" and "isFresh s (g, k)"
  shows "call opts (g, k) args s = (promise cd, s)"
    and "run opts (map (Call (g, k)) as) s = s"
proof -
  from call_fresh[OF assms(2), of opts args] assms(1)
  show "call opts (g, k) args s = (promise cd, s)" by auto
  from assms(2) show "run opts (map (Call (g, k)) as) s = s" by (rule run_calls_fresh)
qed

text \<open>
  C2. The claim: for all calls issued with the same resolved key tuple while the
  group's entry is pending or fresh, the producer is invoked exactly once and every
  caller receives the same promise. The code at the input below: \<open>cacheAsync(fn)\<close>
  with no options, the configuration of which the docstring of \<open>resolver\<close> says that
  the args are ignored and the function is only evaluated once; \<open>f(1)\<close>, then \<open>f(2)\<close>
  before the first promise settles. Both argument lists resolve to the group and key
  \<open>''\<close>. The first call leaves a pending entry for that key tuple. The second call
  finds it not fresh, since \<open>isFresh\<close> asks for \<open>settled\<close> before it looks at
  \<open>expireAt\<close>, and reloads: the producer has been invoked with 1 and with 2, and the
  second caller holds another promise than the first.
\<close>

theorem overlapping_calls_invoke_producer_twice:
  "withArgs (\<lambda>n. ''0'') opts_plain (\<lambda>keys args. destructure keys) 1 = (Some '''', Some '''') \<and>
   withArgs (\<lambda>n. ''0'') opts_plain (\<lambda>keys args. destructure keys) 2 = (Some '''', Some '''') \<and>
   fst (call opts_plain ('''', '''') 1 (init 0 :: (nat, nat) state)) = Produced 0 \<and>
   cache s_first '''' =
     Some \<lparr>ref = 0, key = '''', promise = Produced 0, settled = False, value = Undefined, expireAt = - 1\<rparr> \<and>
   isFresh s_first ('''', '''') = False \<and>
   fst (call opts_plain ('''', '''') 2 s_first) = Produced 1 \<and>
   invoked (snd (call opts_plain ('''', '''') 2 s_first)) = [1, 2]"
proof -
  have s: "s_first = \<lparr>cache = ['''' \<mapsto> \<lparr>ref = 0, key = '''', promise = Produced 0, settled = False,
                                          value = Undefined, expireAt = - 1\<rparr>],
                        now = 0, invoked = [1], next_ref = 1,
                        handlers = [0 \<mapsto> ('''', \<lparr>ref = 0, key = '''', promise = Produced 0, settled = False,
                                                  value = Undefined, expireAt = - 1\<rparr>)]\<rparr>"
    by (simp add: s_first_def init_def Let_def)
  have k: "resolveKey (\<lambda>n. ''0'') opts_plain a = ['''', '''']" for a :: nat
    by (simp add: resolveKey_def opts_plain_def mergeOptions_def defaultOptions_def Let_def)
  show ?thesis
    unfolding s by (simp add: withArgs_def k init_def Let_def)
qed

subsection \<open>C3: what get returns\<close>

text \<open>
  C3, as amended. Without an entry for the group, \<open>get\<close> returns \<open>undefined\<close> and
  \<open>isFresh\<close> and \<open>isSettled\<close> are false. With an entry, \<open>get\<close> returns the entry's
  value unless \<open>mustRevalidate\<close> is set and the entry is not fresh for the queried key
  tuple, in which case it returns \<open>undefined\<close>. An entry stored under another key makes
  \<open>isFresh\<close> and \<open>isSettled\<close> false, and makes \<open>get\<close> return \<open>undefined\<close> exactly
  when \<open>mustRevalidate\<close> is set: otherwise \<open>get\<close> returns the value stored for the
  group whatever the key.
\<close>

theorem get_returns_value_unless_revalidation_withholds:
  fixes opts :: "('a, 'n) ICacheOptions" and s :: "('a, 'u) state"
  shows "(cache s g = None \<longrightarrow>
            get opts s (g, k) = Undefined \<and> \<not> isFresh s (g, k) \<and> \<not> isSettled s (g, k)) \<and>
         (\<forall>cd. cache s g = Some cd \<longrightarrow>
            get opts s (g, k) = (if mustRevalidate opts \<and> \<not> isFresh s (g, k) then Undefined else value cd) \<and>
            (key cd \<noteq> k \<longrightarrow>
               \<not> isFresh s (g, k) \<and> \<not> isSettled s (g, k) \<and>
               get opts s (g, k) = (if mustRevalidate opts then Undefined else value cd)))"
  by (auto simp del: isFresh.simps) simp_all

theorem get_returns_value_unless_revalidation_withholds_witness:
  "cache s_settled ''g'' = Some \<lparr>ref = 1, key = ''1'', promise = Produced 0, settled = True, value = Val 7, expireAt = 1000\<rparr> \<and>
   ''1'' \<noteq> ''2'' \<and>
   get opts_mr s_settled (''g'', ''2'') = Undefined \<and>
   get opts_mr s_settled (''g'', ''1'') = Val 7"
proof -
  let ?cd = "\<lparr>ref = 1, key = ''1'', promise = Produced 0 :: nat promise, settled = True, value = Val (7::nat), expireAt = 1000\<rparr>"
  have c: "cache s_settled ''g'' = Some ?cd" by (simp add: s_settled_eq)
  have ne: "key ?cd \<noteq> ''2''" by simp
  have f: "isFresh s_settled (''g'', ''1'')" by (simp add: s_settled_eq)
  note th = get_returns_value_unless_revalidation_withholds[of s_settled "''g''" opts_mr, THEN conjunct2, rule_format, OF c]
  from th[of "''2''", THEN conjunct2, rule_format, OF ne]
  have a: "get opts_mr s_settled (''g'', ''2'') = Undefined" by (simp add: opts_mr_def del: get.simps)
  from th[of "''1''", THEN conjunct1] f
  have b: "get opts_mr s_settled (''g'', ''1'') = Val 7" by (simp del: get.simps isFresh.simps)
  from a b c show ?thesis by simp
qed

text \<open>
  The claim as stated makes a key mismatch hide the entry from \<open>get\<close> whatever
  \<open>mustRevalidate\<close> is. With \<open>mustRevalidate\<close> false and the value 7 settled under
  key \<open>1\<close>, \<open>get\<close> for key \<open>2\<close> of the same group returns 7, where the empty cache
  gives \<open>undefined\<close>.
\<close>

theorem get_ignores_key_without_mustRevalidate:
  "mustRevalidate opts1 = False \<and>
   map_option key (cache s_settled ''g'') = Some ''1'' \<and>
   get opts1 s_settled (''g'', ''2'') = Val 7 \<and>
   get opts1 (init 0 :: (nat, nat) state) (''g'', ''2'') = Undefined \<and>
   isFresh s_settled (''g'', ''2'') = False \<and>
   isSettled s_settled (''g'', ''2'') = False"
  by (simp add: s_settled_eq opts1_def init_def)

subsection \<open>C4: freshness\<close>

text \<open>
  C4, as amended. \<open>isFresh\<close> is true if and only if the group has an entry whose key
  is the queried key, which is settled, and whose \<open>expireAt\<close> is negative (the
  sentinel \<open>-1\<close> or any other negative number) or strictly greater than the current
  time. Hence with \<open>ttl = T \<ge> 0\<close>, an entry whose promise is fulfilled while it is
  current is fresh \<open>d\<close> milliseconds after the settlement if and only if \<open>d < T\<close>.
\<close>

theorem isFresh_characterisation:
  fixes opts :: "('a, 'n) ICacheOptions" and s :: "('a, 'u) state"
  shows "(isFresh s (g, k) \<longleftrightarrow>
            (\<exists>cd. cache s g = Some cd \<and> key cd = k \<and> settled cd \<and>
                  (expireAt cd < 0 \<or> int (now s) < expireAt cd))) \<and>
         (\<forall>n E cur v d. 0 \<le> ttl opts \<longrightarrow> handlers s n = Some (g, E) \<longrightarrow>
            cache s g = Some cur \<longrightarrow> ref cur = ref E \<longrightarrow>
            (isFresh (tick d (settle opts n (Fulfilled v) s)) (g, key E) \<longleftrightarrow> int d < ttl opts))"
proof (intro conjI allI impI)
  show "isFresh s (g, k) \<longleftrightarrow>
          (\<exists>cd. cache s g = Some cd \<and> key cd = k \<and> settled cd \<and>
                (expireAt cd < 0 \<or> int (now s) < expireAt cd))"
    by (cases "cache s g") simp_all
next
  fix n E cur v d
  assume t: "0 \<le> ttl opts" and h: "handlers s n = Some (g, E)"
    and c: "cache s g = Some cur" and r: "ref cur = ref E"
  show "isFresh (tick d (settle opts n (Fulfilled v) s)) (g, key E) \<longleftrightarrow> int d < ttl opts"
    using t by (simp add: tick_def settle_current_cache[OF h c r])
qed

theorem isFresh_characterisation_witness:
  "(0::int) \<le> ttl opts1 \<and>
   handlers s_pending 0 = Some (''g'', pending1) \<and>
   cache s_pending ''g'' = Some pending1 \<and>
   isFresh (tick 999 (settle opts1 0 (Fulfilled (Val 7)) s_pending)) (''g'', ''1'') \<and>
   \<not> isFresh (tick 1000 (settle opts1 0 (Fulfilled (Val 7)) s_pending)) (''g'', ''1'')"
proof -
  have t: "0 \<le> ttl opts1" by (simp add: opts1_def)
  have h: "handlers s_pending 0 = Some (''g'', pending1)" by (simp add: s_pending_eq)
  have c: "cache s_pending ''g'' = Some pending1" by (simp add: s_pending_eq)
  note th = isFresh_characterisation[of s_pending "''g''" _ opts1, THEN conjunct2, rule_format, OF t h c refl]
  have a: "isFresh (tick 999 (settle opts1 0 (Fulfilled (Val 7)) s_pending)) (''g'', ''1'')"
    using th[of 999 "Val 7"] by (simp add: pending1_def opts1_def del: isFresh.simps)
  have b: "\<not> isFresh (tick 1000 (settle opts1 0 (Fulfilled (Val 7)) s_pending)) (''g'', ''1'')"
    using th[of 1000 "Val 7"] by (simp add: pending1_def opts1_def del: isFresh.simps)
  from t h c a b show ?thesis by (simp only: simp_thms)
qed

text \<open>
  The claim as stated admits, of the negative numbers, only \<open>-1\<close>. With the option
  \<open>ttl = -2\<close>, a fulfilled entry has \<open>expireAt = -2\<close>, which is neither \<open>-1\<close> nor
  greater than the time 5, and the entry is fresh.
\<close>

theorem negative_expiry_is_fresh:
  "isFresh s_forever (''g'', ''1'') \<and>
   cache s_forever ''g'' =
     Some \<lparr>ref = 1, key = ''1'', promise = Produced 0, settled = True, value = Val 7, expireAt = - 2\<rparr> \<and>
   now s_forever = 5 \<and>
   (- 2 :: int) \<noteq> - 1 \<and> \<not> (5 :: int) < - 2"
  by (simp add: s_forever_eq)

subsection \<open>C5: a rejection is recorded as settled and stale\<close>

text \<open>
  C5. In a state reached from the empty cache, let the promise of invocation \<open>n\<close> be
  rejected while the entry \<open>E\<close> its reload installed is still the current one of group
  \<open>g\<close>. Then the slot holds \<open>E\<close> with \<open>settled = true\<close>, \<open>expireAt = 0\<close> and no
  value; \<open>isSettled\<close> is true for the entry's key; \<open>isFresh\<close> is false at once and
  at any later time; and the next call for the group, whatever its key, is a reload:
  it invokes the producer once more and returns the promise of the new invocation, not
  the one of \<open>E\<close>. The promise of \<open>E\<close>, which \<open>call\<close> and \<open>reload\<close> handed out, is the
  producer's own promise, the one rejected, so whoever awaits it sees the rejection.
\<close>

theorem rejection_is_settled_and_stale:
  fixes opts :: "('a, 'n) ICacheOptions" and s s' :: "('a, 'u) state"
  assumes "s = run opts evs (init t)"
      and "handlers s n = Some (g, E)"
      and "cache s g = Some cur" and "ref cur = ref E"
      and "s' = settle opts n Failed s"
  shows "cache s' g = Some (E\<lparr>ref := next_ref s, value := Undefined, expireAt := 0, settled := True\<rparr>) \<and>
         isSettled s' (g, key E) \<and>
         \<not> isFresh s' (g, key E) \<and>
         (\<forall>d. \<not> isFresh (tick d s') (g, key E)) \<and>
         promise E = Produced n \<and>
         (\<forall>k args. call opts (g, k) args s' = reload opts (g, k) args s' \<and>
                   invoked (snd (call opts (g, k) args s')) = invoked s' @ [args] \<and>
                   fst (call opts (g, k) args s') = Produced (length (invoked s')) \<and>
                   fst (call opts (g, k) args s') \<noteq> promise E)"
proof -
  have ok: "handlers_ok s"
    unfolding assms(1) using handlers_ok_init by (rule handlers_ok_run)
  with assms(2) have n: "n < length (invoked s)" and p: "promise E = Produced n"
    by (auto simp: handlers_ok_def)
  note sc = settle_current_cache[OF assms(2,3,4), of opts Failed, folded assms(5)]
  have c: "cache s' g = Some (E\<lparr>ref := next_ref s, value := Undefined, expireAt := 0, settled := True\<rparr>)"
    using sc(1) by simp
  have 2: "isSettled s' (g, key E)" by (simp add: c)
  have 3: "\<forall>d. \<not> isFresh (tick d s') (g, key E)" by (simp add: c tick_def)
  have nf: "\<not> isFresh s' (g, k)" for k by (simp add: c)
  have 5: "\<forall>k args. call opts (g, k) args s' = reload opts (g, k) args s' \<and>
                   invoked (snd (call opts (g, k) args s')) = invoked s' @ [args] \<and>
                   fst (call opts (g, k) args s') = Produced (length (invoked s')) \<and>
                   fst (call opts (g, k) args s') \<noteq> promise E"
  proof (intro allI)
    fix k args
    have e: "call opts (g, k) args s' = reload opts (g, k) args s'"
      using nf by (rule call_not_fresh)
    show "call opts (g, k) args s' = reload opts (g, k) args s' \<and>
          invoked (snd (call opts (g, k) args s')) = invoked s' @ [args] \<and>
          fst (call opts (g, k) args s') = Produced (length (invoked s')) \<and>
          fst (call opts (g, k) args s') \<noteq> promise E"
      unfolding e reload_eq using n p sc(3) by simp
  qed
  show ?thesis
    by (intro conjI) (rule c, rule 2, rule nf, rule 3, rule p, rule 5)
qed

theorem rejection_is_settled_and_stale_witness:
  "s_pending = run opts1 [Call (''g'', ''1'') 1] (init 0) \<and>
   handlers s_pending 0 = Some (''g'', pending1) \<and>
   cache s_pending ''g'' = Some pending1 \<and>
   isSettled (settle opts1 0 Failed s_pending) (''g'', ''1'') \<and>
   \<not> isFresh (tick 0 (settle opts1 0 Failed s_pending)) (''g'', ''1'') \<and>
   fst (call opts1 (''g'', ''1'') 1 (settle opts1 0 Failed s_pending)) = Produced 1 \<and>
   invoked (snd (call opts1 (''g'', ''1'') 1 (settle opts1 0 Failed s_pending))) = [1, 1]"
proof -
  have r: "s_pending = run opts1 [Call (''g'', ''1'') 1] (init 0)"
    by (simp add: s_pending_def del: call.simps)
  have h: "handlers s_pending 0 = Some (''g'', pending1)" by (simp add: s_pending_eq)
  have c: "cache s_pending ''g'' = Some pending1" by (simp add: s_pending_eq)
  have i: "invoked (settle opts1 0 Failed s_pending) = [1]"
    unfolding settle_current_cache(3)[OF h c refl] by (simp add: s_pending_eq)
  note th = rejection_is_settled_and_stale[OF r h c refl refl]
  have a: "isSettled (settle opts1 0 Failed s_pending) (''g'', ''1'')"
    using th[THEN conjunct2, THEN conjunct1] by (simp add: pending1_def del: isSettled.simps)
  have b: "\<not> isFresh (tick 0 (settle opts1 0 Failed s_pending)) (''g'', ''1'')"
    using th[THEN conjunct2, THEN conjunct2, THEN conjunct2, THEN conjunct1, rule_format, of 0]
    by (simp add: pending1_def del: isFresh.simps)
  note nx = th[THEN conjunct2, THEN conjunct2, THEN conjunct2, THEN conjunct2, THEN conjunct2, rule_format, of "''1''" 1]
  have d: "fst (call opts1 (''g'', ''1'') 1 (settle opts1 0 Failed s_pending)) = Produced 1"
    using nx[THEN conjunct2, THEN conjunct2, THEN conjunct1] by (simp add: i del: call.simps)
  have e: "invoked (snd (call opts1 (''g'', ''1'') 1 (settle opts1 0 Failed s_pending))) = [1, 1]"
    using nx[THEN conjunct2, THEN conjunct1] by (simp add: i del: call.simps)
  from r h c a b d e show ?thesis by (simp only: simp_thms)
qed

subsection \<open>C6: reload installs a pending entry\<close>

text \<open>
  C6. In every state, \<open>reload\<close> invokes the producer with the arguments, returns the
  promise of that invocation, and stores for the group a new object with the resolved
  key, that promise, \<open>expireAt = -1\<close> and \<open>settled = false\<close>. The one remaining field
  of \<open>ICacheData\<close>, \<open>value\<close>, is the value of the entry the group had before
  (\<open>undefined\<close> if it had none). The other groups, and the clock, are untouched, and
  the callback registered on the promise is closed over the new entry.
\<close>

theorem reload_installs_pending:
  fixes opts :: "('a, 'n) ICacheOptions" and s s' :: "('a, 'u) state"
  assumes "reload opts (g, k) args s = (p, s')"
  shows "invoked s' = invoked s @ [args] \<and>
         p = Produced (length (invoked s)) \<and>
         cache s' g = Some \<lparr>ref = next_ref s, key = k, promise = p, settled = False,
                             value = (case cache s g of None \<Rightarrow> Undefined | Some old \<Rightarrow> value old),
                             expireAt = - 1\<rparr> \<and>
         (\<forall>old. cache s g = Some old \<longrightarrow> map_option value (cache s' g) = Some (value old)) \<and>
         (\<forall>g'. g' \<noteq> g \<longrightarrow> cache s' g' = cache s g') \<and>
         handlers s' (length (invoked s)) = Some (g, the (cache s' g)) \<and>
         now s' = now s"
proof -
  let ?cd = "\<lparr>ref = next_ref s, key = k, promise = Produced (length (invoked s)), settled = False,
               value = (case cache s g of None \<Rightarrow> Undefined | Some old \<Rightarrow> value old),
               expireAt = - 1\<rparr>"
  have "p = fst (reload opts (g, k) args s)" and "s' = snd (reload opts (g, k) args s)"
    by (simp_all only: assms fst_conv snd_conv)
  then have p: "p = Produced (length (invoked s))" and s': "s' = s\<lparr>cache := (cache s)(g \<mapsto> ?cd), invoked := invoked s @ [args],
                          next_ref := Suc (next_ref s),
                          handlers := (handlers s)(length (invoked s) \<mapsto> (g, ?cd))\<rparr>"
    unfolding reload_eq by simp_all
  have c: "cache s' g = Some ?cd" by (simp add: s')
  have 1: "invoked s' = invoked s @ [args]" by (simp add: s')
  have 3: "\<forall>old. cache s g = Some old \<longrightarrow> map_option value (cache s' g) = Some (value old)"
    by (auto simp: c)
  have 4: "\<forall>g'. g' \<noteq> g \<longrightarrow> cache s' g' = cache s g'" by (simp add: s')
  have 5: "handlers s' (length (invoked s)) = Some (g, the (cache s' g))" by (simp add: s')
  have 6: "now s' = now s" by (simp add: s')
  from 1 p c 3 4 5 6 show ?thesis by simp
qed

text \<open>
  An instance: the group holds the settled value 7 under key \<open>1\<close>; a reload for key
  \<open>2\<close> leaves a pending entry that still carries 7.
\<close>

theorem reload_installs_pending_witness:
  "reload opts1 (''g'', ''2'') 2 (set_cached opts1 (''g'', ''1'') (Val 7) None (init 3 :: (nat, nat) state))
     = (Produced 0,
        \<lparr>cache = [''g'' \<mapsto> \<lparr>ref = 1, key = ''2'', promise = Produced 0, settled = False, value = Val 7, expireAt = - 1\<rparr>],
         now = 3, invoked = [2], next_ref = 2,
         handlers = [0 \<mapsto> (''g'', \<lparr>ref = 1, key = ''2'', promise = Produced 0, settled = False, value = Val 7, expireAt = - 1\<rparr>)]\<rparr>) \<and>
   cache (snd (reload opts1 (''g'', ''2'') 2 (set_cached opts1 (''g'', ''1'') (Val 7) None (init 3 :: (nat, nat) state)))) ''h''
     = cache (set_cached opts1 (''g'', ''1'') (Val 7) None (init 3) :: (nat, nat) state) ''h''"
proof -
  let ?s = "set_cached opts1 (''g'', ''1'') (Val 7) None (init 3) :: (nat, nat) state"
  let ?r = "reload opts1 (''g'', ''2'') 2 ?s"
  have s: "?s = \<lparr>cache = [''g'' \<mapsto> \<lparr>ref = 0, key = ''1'', promise = Resolved (Val 7), settled = True, value = Val 7, expireAt = 1003\<rparr>],
                 now = 3, invoked = [], next_ref = 1, handlers = Map.empty\<rparr>"
    by (simp add: init_def Let_def opts1_def)
  have r: "?r = (fst ?r, snd ?r)" by (simp only: prod.collapse)
  have ne: "''h'' \<noteq> ''g''" by simp
  note frame = reload_installs_pending[OF r, THEN conjunct2, THEN conjunct2, THEN conjunct2,
      THEN conjunct2, THEN conjunct1, rule_format]
  have other: "cache (snd ?r) ''h'' = cache ?s ''h''" by (rule frame[OF ne])
  have "?r = (Produced 0,
        \<lparr>cache = [''g'' \<mapsto> \<lparr>ref = 1, key = ''2'', promise = Produced 0, settled = False, value = Val 7, expireAt = - 1\<rparr>],
         now = 3, invoked = [2], next_ref = 2,
         handlers = [0 \<mapsto> (''g'', \<lparr>ref = 1, key = ''2'', promise = Produced 0, settled = False, value = Val 7, expireAt = - 1\<rparr>)]\<rparr>)"
    unfolding s reload_eq by simp
  with other show ?thesis by (simp only: simp_thms)
qed

subsection \<open>C7: the expiry written on success\<close>

text \<open>
  C7, as amended. When the promise of invocation \<open>n\<close> is fulfilled with \<open>v\<close> while the
  entry \<open>E\<close> its reload installed is still current, the slot holds \<open>E\<close> with the value
  \<open>v\<close>, \<open>settled = true\<close> and \<open>expireAt = now + ttl\<close> when \<open>ttl \<ge> 0\<close>, and
  \<open>expireAt = ttl\<close> when \<open>ttl < 0\<close>: that is \<open>-1\<close> when \<open>ttl = -1\<close>. With any negative
  \<open>ttl\<close>, \<open>-1\<close> among them, the entry is fresh however much time passes.
\<close>

theorem success_sets_expiry:
  fixes opts :: "('a, 'n) ICacheOptions" and s :: "('a, 'u) state"
  assumes "handlers s n = Some (g, E)" and "cache s g = Some cur" and "ref cur = ref E"
  shows "cache (settle opts n (Fulfilled v) s) g =
           Some (E\<lparr>ref := next_ref s, value := v,
                   expireAt := (if ttl opts < 0 then ttl opts else int (now s) + ttl opts),
                   settled := True\<rparr>) \<and>
         (0 \<le> ttl opts \<longrightarrow>
            map_option expireAt (cache (settle opts n (Fulfilled v) s) g) = Some (int (now s) + ttl opts)) \<and>
         (ttl opts < 0 \<longrightarrow>
            map_option expireAt (cache (settle opts n (Fulfilled v) s) g) = Some (ttl opts) \<and>
            (\<forall>d. isFresh (tick d (settle opts n (Fulfilled v) s)) (g, key E))) \<and>
         (ttl opts = - 1 \<longrightarrow>
            map_option expireAt (cache (settle opts n (Fulfilled v) s) g) = Some (- 1) \<and>
            (\<forall>d. isFresh (tick d (settle opts n (Fulfilled v) s)) (g, key E)))"
  by (simp add: tick_def settle_current_cache[OF assms])

theorem success_sets_expiry_witness:
  "ttl opts_default = - 1 \<and>
   handlers s_pending 0 = Some (''g'', pending1) \<and>
   cache s_pending ''g'' = Some pending1 \<and>
   map_option expireAt (cache (settle opts_default 0 (Fulfilled (Val 7)) s_pending) ''g'') = Some (- 1) \<and>
   isFresh (tick 1000000000000 (settle opts_default 0 (Fulfilled (Val 7)) s_pending)) (''g'', ''1'')"
proof -
  have t: "ttl opts_default = - 1" by (simp add: opts_default_def mergeOptions_def defaultOptions_def)
  have h: "handlers s_pending 0 = Some (''g'', pending1)" by (simp add: s_pending_eq)
  have c: "cache s_pending ''g'' = Some pending1" by (simp add: s_pending_eq)
  note th = success_sets_expiry[OF h c refl, of opts_default "Val 7", THEN conjunct2, THEN conjunct2,
      THEN conjunct2, rule_format, OF t]
  have a: "map_option expireAt (cache (settle opts_default 0 (Fulfilled (Val 7)) s_pending) ''g'') = Some (- 1)"
    by (rule th[THEN conjunct1])
  have b: "isFresh (tick 1000000000000 (settle opts_default 0 (Fulfilled (Val 7)) s_pending)) (''g'', ''1'')"
    using th[THEN conjunct2, rule_format, of 1000000000000] by (simp add: pending1_def del: isFresh.simps)
  from t h c a b show ?thesis by (simp only: simp_thms)
qed

text \<open>
  The claim as stated writes \<open>-1\<close> for every negative \<open>ttl\<close>. With \<open>ttl = -2\<close> the
  entry written on success has \<open>expireAt = -2\<close>.
\<close>

theorem negative_ttl_is_stored_as_is:
  "ttl opts_neg = - 2 \<and>
   cache s_pending ''g'' = Some pending1 \<and>
   handlers s_pending 0 = Some (''g'', pending1) \<and>
   cache (settle opts_neg 0 (Fulfilled (Val 7)) s_pending) ''g'' =
     Some \<lparr>ref = 1, key = ''1'', promise = Produced 0, settled = True, value = Val 7, expireAt = - 2\<rparr> \<and>
   (- 2 :: int) \<noteq> - 1"
proof -
  have h: "handlers s_pending 0 = Some (''g'', pending1)" by (simp add: s_pending_eq)
  have c: "cache s_pending ''g'' = Some pending1" by (simp add: s_pending_eq)
  have n: "next_ref s_pending = 1" by (simp add: s_pending_eq)
  show ?thesis
    by (simp add: settle_current_cache(1)[OF h c refl] h c n opts_neg_def pending1_def)
qed

subsection \<open>C8: set under a key the group was not loaded for\<close>

text \<open>
  C8. The claim: \<open>set\<close> installs a settled entry whose key is the resolved key, so
  that reads for the same key tuple observe it. The code at the input below: the group
  holds the value 7 settled under key \<open>1\<close>, and the context of key \<open>2\<close> sets the value
  9. The entry stored has the value 9 and is settled, but its key is still \<open>1\<close>, the
  key of the entry it replaced. So \<open>isSettled\<close> and \<open>isFresh\<close> are false for key
  \<open>2\<close>, a call for key \<open>2\<close> invokes the producer, and a call for key \<open>1\<close> is
  answered with the promise of 9.
\<close>

theorem set_keeps_key_of_previous_entry:
  "map_option key (cache s_settled ''g'') = Some ''1'' \<and>
   map_option key (cache s_overridden ''g'') = Some ''1'' \<and>
   map_option value (cache s_overridden ''g'') = Some (Val 9) \<and>
   map_option settled (cache s_overridden ''g'') = Some True \<and>
   isSettled s_overridden (''g'', ''2'') = False \<and>
   isFresh s_overridden (''g'', ''2'') = False \<and>
   isFresh s_overridden (''g'', ''1'') = True \<and>
   fst (call opts1 (''g'', ''1'') 1 s_overridden) = Resolved (Val 9) \<and>
   fst (call opts1 (''g'', ''2'') 2 s_overridden) = Produced 1"
  by (simp add: s_overridden_def getContext_def s_settled_eq Let_def)

subsection \<open>C9: the resolved key tuple\<close>

text \<open>
  C9, as amended. When the resolver returns one primitive, group and key are both its
  string. When it returns an array of two or more elements, group and key are the
  strings of the first two. \<open>undefined\<close> becomes the empty string. When it returns an
  array of fewer than two elements, the key is \<open>undefined\<close>, not a string. Without a
  resolver among the options, group and key are the empty string for every argument
  list.
\<close>

theorem resolveKey_components:
  fixes opts :: "('a, 'n) ICacheOptions"
  shows "(\<forall>p. resolver opts args = Single p \<longrightarrow>
            destructure (resolveKey f opts args) = (Some (stringify f p), Some (stringify f p))) \<and>
         (\<forall>p q rest. resolver opts args = Array (p # q # rest) \<longrightarrow>
            destructure (resolveKey f opts args) = (Some (stringify f p), Some (stringify f q))) \<and>
         (\<forall>ks. resolver opts args = Array ks \<longrightarrow> length ks < 2 \<longrightarrow>
            snd (destructure (resolveKey f opts args)) = None) \<and>
         stringify f KUndefined = '''' \<and>
         (\<forall>m t. destructure (resolveKey f (mergeOptions \<lparr>opt_mustRevalidate = m, opt_resolver = None, opt_ttl = t\<rparr>) args)
                  = (Some '''', Some ''''))"
proof (intro conjI allI impI)
  fix ks :: "'n ICachePrimitiveKey list"
  assume "resolver opts args = Array ks" and "length ks < 2"
  then show "snd (destructure (resolveKey f opts args)) = None"
    by (simp add: resolveKey_def destructure_short)
qed (simp_all add: resolveKey_def mergeOptions_def defaultOptions_def Let_def)

theorem resolveKey_components_witness:
  "resolver opts1 5 = Array [KString ''g'', KNumber 5] \<and>
   destructure (resolveKey (\<lambda>n. ''five'') opts1 5) = (Some ''g'', Some ''five'')"
proof -
  have r: "resolver opts1 5 = Array (KString ''g'' # KNumber 5 # [])" by (simp add: opts1_def)
  from resolveKey_components[of opts1 5 "\<lambda>n. ''five''", THEN conjunct2, THEN conjunct1, rule_format, OF r] r
  show ?thesis by simp
qed

text \<open>
  The claim as stated promises a pair of strings for every resolver result, malformed
  arrays included. A resolver returning the one-element array \<open>['g']\<close> gives the group
  \<open>g\<close> and no key.
\<close>

theorem short_array_leaves_key_undefined:
  "resolver opts_short 1 = Array [KString ''g''] \<and>
   resolveKey (\<lambda>n. ''0'') opts_short 1 = [''g''] \<and>
   destructure (resolveKey (\<lambda>n. ''0'') opts_short 1) = (Some ''g'', None) \<and>
   withArgs (\<lambda>n. ''0'') opts_short (\<lambda>keys args. destructure keys) 1 = (Some ''g'', None)"
  by (simp add: opts_short_def resolveKey_def withArgs_def)

subsection \<open>C10: the default time to live of the context's set\<close>

text \<open>
  C10. \<open>set\<close> of the context returned by \<open>getContext\<close>, called without a time to
  live, stores an entry with \<open>expireAt = -1\<close> whatever the option \<open>ttl\<close> is. The
  helper \<open>set\<close>, called without one, uses the option: with \<open>ttl \<ge> 0\<close> it stores
  \<open>expireAt = now + ttl\<close>, which differs. With an explicit time to live the two agree.
\<close>

theorem context_set_ignores_configured_ttl:
  fixes opts :: "('a, 'n) ICacheOptions" and s :: "('a, 'u) state"
  shows "map_option expireAt (cache (ctx_set (getContext opts (g, k) args) v None s) g) = Some (- 1) \<and>
         map_option expireAt (cache (set_cached opts (g, k) v None s) g)
           = Some (if ttl opts < 0 then ttl opts else int (now s) + ttl opts) \<and>
         (0 \<le> ttl opts \<longrightarrow>
            map_option expireAt (cache (set_cached opts (g, k) v None s) g) = Some (int (now s) + ttl opts) \<and>
            map_option expireAt (cache (set_cached opts (g, k) v None s) g)
              \<noteq> map_option expireAt (cache (ctx_set (getContext opts (g, k) args) v None s) g)) \<and>
         (\<forall>t. ctx_set (getContext opts (g, k) args) v (Some t) s = set_cached opts (g, k) v (Some t) s)"
  by (simp add: getContext_def Let_def)

theorem context_set_ignores_configured_ttl_witness:
  "(0::int) \<le> ttl opts1 \<and>
   map_option expireAt (cache (ctx_set (getContext opts1 (''g'', ''1'') 1) (Val 7) None (init 50 :: (nat, nat) state)) ''g'') = Some (- 1) \<and>
   map_option expireAt (cache (set_cached opts1 (''g'', ''1'') (Val 7) None (init 50 :: (nat, nat) state)) ''g'') = Some 1050"
proof -
  have t: "0 \<le> ttl opts1" by (simp add: opts1_def)
  note th = context_set_ignores_configured_ttl[of opts1 "''g''" "''1''" 1 "Val 7" "init 50 :: (nat, nat) state"]
  have a: "map_option expireAt (cache (ctx_set (getContext opts1 (''g'', ''1'') 1) (Val 7) None (init 50 :: (nat, nat) state)) ''g'') = Some (- 1)"
    by (rule th[THEN conjunct1])
  have b: "map_option expireAt (cache (set_cached opts1 (''g'', ''1'') (Val 7) None (init 50 :: (nat, nat) state)) ''g'') = Some 1050"
    using th[THEN conjunct2, THEN conjunct2, THEN conjunct1, rule_format, OF t, THEN conjunct1]
    by (simp add: init_def opts1_def del: set_cached.simps)
  from t a b show ?thesis by (simp only: simp_thms)
qed

end
